theory Spec2Isabelle
  imports Main "HOL-Library.Sublist"
begin

section \<open>Data model of the simulator (src/js/simulator.js)\<close>

text \<open>
  The values a node state holds. The simulator stores Booleans; a read of a key that an
  object does not have gives \<open>undefined\<close>, and a rule that reads such a key can return it.
\<close>

datatype jsval = JBool bool | JUndefined

text \<open>
  A JavaScript object used as a dictionary: its entries in the order in which
  \<open>for (i in obj)\<close> enumerates them. A well-formed object has distinct keys.
\<close>

type_synonym 'v jsobj = "(string \<times> 'v) list"

definition keys :: "'v jsobj \<Rightarrow> string list" where
  "keys obj = map fst obj"

text \<open>\<open>obj[k]\<close>: the value stored under \<open>k\<close>, \<open>undefined\<close> when there is none.\<close>

definition get :: "jsval jsobj \<Rightarrow> string \<Rightarrow> jsval" where
  "get obj k = (case map_of obj k of Some v \<Rightarrow> v | None \<Rightarrow> JUndefined)"

text \<open>
  \<open>obj[k] = v\<close>: an existing key keeps its place in the enumeration order, a new key
  is enumerated last. This is the order of keys that are not array indices; a new key
  that is a canonical integer, such as \<open>1\<close>, JavaScript enumerates before the keys that
  are not, in numeric order. The two differ only when such a key is added to an object
  that already holds a key enumerated after it. \<open>decodeStateMap\<close> and \<open>getInitStates\<close>
  add the keys of \<open>network.state\<close> to an empty object in their enumeration order, where
  that does not happen. It can happen only when \<open>synchronousUpdate\<close> adds a key to a
  state that lacked it; the states that \<open>search\<close> and \<open>singleIteration\<close> pass to it
  hold every key of \<open>network.state\<close>, so that no key is added to them.
\<close>

fun put :: "'v jsobj \<Rightarrow> string \<Rightarrow> 'v \<Rightarrow> 'v jsobj" where
  "put [] k v = [(k, v)]"
| "put (p # ps) k v = (if fst p = k then (k, v) # ps else p # put ps k v)"

text \<open>
  The network object (jSBGN) as far as the simulator reads it: the rule table
  \<open>network.rules\<close> (node id to rule text) and the live state \<open>network.state\<close>.
  The keys of \<open>network.state\<close> are the dynamic nodes.
\<close>

record network =
  rules :: "string jsobj"
  state :: "jsval jsobj"

text \<open>
  \<open>ruleFunctions\<close>: one compiled rule per node. The functions are built by
  \<open>Function("state", "return " + newRule + ";")\<close>, that is by the JavaScript engine, so
  they are a parameter here: any pure function from the state object to a value.
  \<open>initialize\<close> installs one for every key of \<open>network.state\<close>.
\<close>

type_synonym rulefuns = "string \<Rightarrow> jsval jsobj \<Rightarrow> jsval"

section \<open>Synchronous update\<close>

text \<open>
  The first loop of \<open>synchronousUpdate\<close>: for every key \<open>i\<close> of \<open>network.state\<close>,
  \<open>newState[i] = ruleFunctions[i](state)\<close>, and \<open>i\<close> is pushed to \<open>changed\<close> when
  \<open>newState[i] !== state[i]\<close>.
\<close>

definition candidates ::
  "rulefuns \<Rightarrow> jsval jsobj \<Rightarrow> string list \<Rightarrow> jsval jsobj \<times> string list" where
  "candidates ruleFunctions st ks =
     fold (\<lambda>i (newState, changed).
             let newState' = put newState i (ruleFunctions i st)
             in (newState', if get newState' i \<noteq> get st i then changed @ [i] else changed))
          ks ([], [])"

text \<open>The second loop: \<open>state[id] = newState[id]\<close> for every \<open>id\<close> in \<open>changed\<close>.\<close>

definition apply_changed :: "jsval jsobj \<Rightarrow> string list \<Rightarrow> jsval jsobj \<Rightarrow> jsval jsobj" where
  "apply_changed newState changed st = fold (\<lambda>id s. put s id (get newState id)) changed st"

text \<open>
  \<open>synchronousUpdate(state)\<close> mutates \<open>state\<close> and returns \<open>changed\<close>; the model
  returns both the list and the state after the call.
\<close>

definition synchronousUpdate ::
  "network \<Rightarrow> rulefuns \<Rightarrow> jsval jsobj \<Rightarrow> string list \<times> jsval jsobj" where
  "synchronousUpdate net ruleFunctions st =
     (let (newState, changed) = candidates ruleFunctions st (keys (state net))
      in (changed, apply_changed newState changed st))"

section \<open>State codec\<close>

text \<open>
  What \<open>map += +state[i]\<close> appends: \<open>+true\<close> is 1, \<open>+false\<close> is 0,
  \<open>+undefined\<close> is NaN.
\<close>

fun plus_string :: "jsval \<Rightarrow> string" where
  "plus_string (JBool True) = ''1''"
| "plus_string (JBool False) = ''0''"
| "plus_string JUndefined = ''NaN''"

definition encodeStateMap :: "jsval jsobj \<Rightarrow> string" where
  "encodeStateMap st = fold (\<lambda>i m. m @ plus_string (get st i)) (keys st) []"

text \<open>\<open>map[j]\<close> on a string: the character at \<open>j\<close>, \<open>undefined\<close> past the end.\<close>

definition char_at :: "string \<Rightarrow> nat \<Rightarrow> char option" where
  "char_at m j = (if j < length m then Some (m ! j) else None)"

text \<open>
  \<open>parseInt(c, 10)\<close> for \<open>c = map[j]\<close>: a decimal digit parses to its value; any other
  character, and \<open>undefined\<close>, give NaN (\<open>None\<close>).
\<close>

definition parseInt10 :: "char option \<Rightarrow> nat option" where
  "parseInt10 c =
     (case c of None \<Rightarrow> None
      | Some d \<Rightarrow> map_of [(CHR ''0'', 0), (CHR ''1'', 1), (CHR ''2'', 2), (CHR ''3'', 3),
                          (CHR ''4'', 4), (CHR ''5'', 5), (CHR ''6'', 6), (CHR ''7'', 7),
                          (CHR ''8'', 8), (CHR ''9'', 9)] d)"

text \<open>\<open>Boolean(n)\<close> for a number: false for NaN and for 0.\<close>

definition Boolean_num :: "nat option \<Rightarrow> bool" where
  "Boolean_num n = (case n of None \<Rightarrow> False | Some k \<Rightarrow> k \<noteq> 0)"

definition decodeStateMap :: "network \<Rightarrow> string \<Rightarrow> jsval jsobj" where
  "decodeStateMap net m =
     fst (fold (\<lambda>i (st, j). (put st i (JBool (Boolean_num (parseInt10 (char_at m j)))), Suc j))
               (keys (state net)) ([], 0))"

section \<open>Attractor search\<close>

text \<open>
  An exception the search can raise: a property read on \<open>undefined\<close>, when the remote
  response does not hold an entry for an initial state.
\<close>

datatype error = TypeError

text \<open>
  Modelled from the spec: the graph document \<open>sb.Document\<close> of the SBGN library, which
  is not among the sources. It is the transition graph: nodes are state keys, an arc
  has an identifier, a source and a target. \<open>doc.node(id)\<close> is the node with that
  identifier or \<open>null\<close>; \<open>createNode\<close> and \<open>createArc\<close> add to the document.
\<close>

record document =
  nodes :: "string list"
  arcs :: "(string \<times> string \<times> string) list"

text \<open>\<open>doc.node(id) !== null\<close>\<close>

definition node :: "document \<Rightarrow> string \<Rightarrow> bool" where
  "node doc ident \<longleftrightarrow> ident \<in> set (nodes doc)"

definition createNode :: "document \<Rightarrow> string \<Rightarrow> document" where
  "createNode doc ident = doc\<lparr>nodes := nodes doc @ [ident]\<rparr>"

text \<open>\<open>doc.createArc(id).type(...).source(src).target(tgt)\<close>\<close>

definition createArc :: "document \<Rightarrow> string \<Rightarrow> string \<Rightarrow> string \<Rightarrow> document" where
  "createArc doc ident src tgt = doc\<lparr>arcs := arcs doc @ [(ident, src, tgt)]\<rparr>"

text \<open>\<open>currStates.indexOf(map)\<close>: the first index, \<open>None\<close> for -1.\<close>

fun indexOf :: "string list \<Rightarrow> string \<Rightarrow> nat option" where
  "indexOf [] x = None"
| "indexOf (y # ys) x = (if y = x then Some 0 else map_option Suc (indexOf ys x))"

text \<open>
  \<open>updateNodeRules(state)\<close>: for every key of a state sent by the server, the rule
  function becomes the constant function of that key's value. The server's values are
  0 and 1; only their truth value is read, so the remote state holds Booleans here.
\<close>

definition updateNodeRules :: "rulefuns \<Rightarrow> bool jsobj \<Rightarrow> rulefuns" where
  "updateNodeRules ruleFunctions s =
     fold (\<lambda>i rf. if map_of s i = Some True then rf(i := (\<lambda>_. JBool True))
                   else rf(i := (\<lambda>_. JBool False)))
          (keys s) ruleFunctions"

text \<open>
  \<open>statesList[i][j]\<close>, where \<open>statesList\<close> is the parsed response of the server: a list
  of state sequences, one per initial state, or \<open>undefined\<close> (\<open>None\<close>) when no response
  was stored. Reading an index of \<open>undefined\<close> throws; an index past the end of a
  sequence is \<open>undefined\<close>, which \<open>updateNodeRules\<close> enumerates as an object with no key.
\<close>

definition remote_state :: "bool jsobj list list option \<Rightarrow> nat \<Rightarrow> nat \<Rightarrow> error + bool jsobj" where
  "remote_state statesList i j =
     (case statesList of
        None \<Rightarrow> Inl TypeError
      | Some l \<Rightarrow>
          if i < length l then Inr (if j < length (l ! i) then l ! i ! j else [])
          else Inl TypeError)"

text \<open>
  What the search carries from one initial state to the next: the rule functions (which
  \<open>updateNodeRules\<close> overwrites when \<open>obj.scopes\<close> is set), the document and the
  attractors found so far.
\<close>

type_synonym search_vars = "rulefuns \<times> document \<times> string list list"

text \<open>
  The inner loop \<open>for (j = 0;; j++)\<close> of \<open>search\<close>, for the initial state number \<open>i\<close>.
  It has no exit condition of its own and leaves by \<open>break\<close>; a run that never breaks
  is \<open>None\<close>. At the \<open>break\<close> it returns the search variables and the value of \<open>j\<close>.
\<close>

partial_function (option) trajectory ::
  "network \<Rightarrow> bool \<Rightarrow> bool jsobj list list option \<Rightarrow> nat \<Rightarrow> rulefuns \<Rightarrow> document
     \<Rightarrow> string list list \<Rightarrow> string list \<Rightarrow> string \<Rightarrow> jsval jsobj \<Rightarrow> nat
     \<Rightarrow> (error + search_vars \<times> nat) option" where
  "trajectory net scopes statesList i ruleFunctions doc attractors currStates prev st j =
     (let m = encodeStateMap st in
      if node doc m then
        Some (Inr ((ruleFunctions,
                    if prev \<noteq> [] then createArc doc (prev @ ''->'' @ m) prev m else doc,
                    case indexOf currStates m of
                      Some idx \<Rightarrow> attractors @ [drop idx currStates]
                    | None \<Rightarrow> attractors), j))
      else
        let doc' = createNode doc m;
            doc'' = (if prev \<noteq> [] then createArc doc' (prev @ ''->'' @ m) prev m else doc');
            currStates' = currStates @ [m]
        in case (if scopes
                 then map_sum id (updateNodeRules ruleFunctions)
                        (remote_state statesList i (Suc j))
                 else Inr ruleFunctions) of
             Inl e \<Rightarrow> Some (Inl e)
           | Inr ruleFunctions' \<Rightarrow>
               trajectory net scopes statesList i ruleFunctions' doc'' attractors currStates' m
                 (snd (synchronousUpdate net ruleFunctions' st)) (Suc j))"

declare trajectory.simps [code]

text \<open>
  \<open>getInitStates\<close>: 30 states, each key of \<open>network.state\<close> set to
  \<open>Boolean(Math.round(Math.random()))\<close>. The random generator is a parameter:
  \<open>random d\<close> is the Boolean the \<open>d\<close>-th draw gives.
\<close>

definition getInitStates :: "network \<Rightarrow> (nat \<Rightarrow> bool) \<Rightarrow> jsval jsobj list" where
  "getInitStates net random =
     fst (fold (\<lambda>i (initStates, d).
                  let (s, d') = fold (\<lambda>j (s, d). (put s j (JBool (random d)), Suc d))
                                     (keys (state net)) ([], d)
                  in (initStates @ [s], d'))
               [0..<30] ([], 0))"

text \<open>The outer loop \<open>for (i in initStates)\<close>; an exception or a run without end ends it.\<close>

fun search_loop ::
  "network \<Rightarrow> bool \<Rightarrow> bool jsobj list list option \<Rightarrow> (nat \<times> jsval jsobj) list
     \<Rightarrow> search_vars \<Rightarrow> (error + search_vars) option" where
  "search_loop net scopes statesList [] vars = Some (Inr vars)"
| "search_loop net scopes statesList ((i, st) # rest) (ruleFunctions, doc, attractors) =
     (case trajectory net scopes statesList i ruleFunctions doc attractors [] [] st 0 of
        None \<Rightarrow> None
      | Some (Inl e) \<Rightarrow> Some (Inl e)
      | Some (Inr (vars, j)) \<Rightarrow> search_loop net scopes statesList rest vars)"

text \<open>
  \<open>search\<close>, up to the call of \<open>drawAttractors(doc, attractors)\<close>, whose arguments it
  returns. \<open>scopes\<close> is \<open>obj.scopes\<close> and \<open>statesList\<close> the server's response.
\<close>

definition search ::
  "network \<Rightarrow> bool \<Rightarrow> bool jsobj list list option \<Rightarrow> rulefuns \<Rightarrow> (nat \<Rightarrow> bool)
     \<Rightarrow> (error + search_vars) option" where
  "search net scopes statesList ruleFunctions random =
     search_loop net scopes statesList (enumerate 0 (getInitStates net random))
       (ruleFunctions, \<lparr>nodes = [], arcs = []\<rparr>, [])"

section \<open>Export of the rule table\<close>

text \<open>
  \<open>s.replace(/pat/g, rep)\<close> for a pattern that is a literal text: every match, found
  from left to right without overlap, is replaced.
\<close>

fun replace_all :: "string \<Rightarrow> string \<Rightarrow> string \<Rightarrow> string" where
  "replace_all pat rep [] = []"
| "replace_all pat rep (c # cs) =
     (if pat \<noteq> [] \<and> prefix pat (c # cs)
      then rep @ replace_all pat rep (drop (length pat) (c # cs))
      else c # replace_all pat rep cs)"

text \<open>
  Both exports enumerate \<open>network.rules\<close>; \<open>network.rules[i]\<close> is the text of the entry
  being enumerated.
\<close>

definition exportRBoolNet :: "network \<Rightarrow> string" where
  "exportRBoolNet net =
     fold (\<lambda>(i, rule) rbn.
             let r = replace_all ''false'' ''FALSE''
                      (replace_all ''true'' ''TRUE''
                        (replace_all ''||'' ''|''
                          (replace_all ''&&'' ''&'' rule)))
             in rbn @ i @ '', '' @ r @ ''\<newline>'')
          (rules net) ''targets, factors\<newline>''"

definition exportPythonBooleanNet :: "network \<Rightarrow> string" where
  "exportPythonBooleanNet net =
     fold (\<lambda>(i, rule) pbn.
             let r = replace_all ''!'' ''not''
                      (replace_all ''false'' ''False''
                        (replace_all ''true'' ''True''
                          (replace_all ''||'' ''or''
                            (replace_all ''&&'' ''and'' rule))))
             in pbn @ i @ ''* = '' @ r @ ''\<newline>'')
          (rules net) []"

section \<open>Example networks\<close>

text \<open>The truth value of a value (\<open>ToBoolean\<close>) and the operator \<open>!\<close>.\<close>

definition truthy :: "jsval \<Rightarrow> bool" where
  "truthy v = (case v of JBool b \<Rightarrow> b | JUndefined \<Rightarrow> False)"

definition js_not :: "jsval \<Rightarrow> jsval" where
  "js_not v = JBool (\<not> truthy v)"

text \<open>
  Two nodes, each the negation of the other. \<open>makeRuleFunction\<close> turns the rule text
  \<open>!B\<close> into \<open>function (state) { return !state['B']; }\<close>. An identifier that is no
  key of \<open>network.state\<close> has no rule function and none is ever called for it; the value
  given for it here is not read.
\<close>

definition negation_network :: network where
  "negation_network =
     \<lparr>rules = [(''A'', ''!B''), (''B'', ''!A'')],
      state = [(''A'', JBool False), (''B'', JBool False)]\<rparr>"

definition negation_rules :: rulefuns where
  "negation_rules i st =
     (if i = ''A'' then js_not (get st ''B'')
      else if i = ''B'' then js_not (get st ''A'')
      else JUndefined)"

text \<open>One node with the rule text \<open>true\<close>, which compiles to \<open>return true;\<close>.\<close>

definition true_network :: network where
  "true_network = \<lparr>rules = [(''A'', ''true'')], state = [(''A'', JBool False)]\<rparr>"

definition true_rules :: rulefuns where
  "true_rules i st = (if i = ''A'' then JBool True else JUndefined)"

text \<open>
  The operator \<open>&&\<close>: the left operand when it is falsy, the right operand otherwise.
\<close>

definition js_and :: "jsval \<Rightarrow> jsval \<Rightarrow> jsval" where
  "js_and a b = (if truthy a then b else a)"

text \<open>
  A node A with the rule text \<open>!A && B\<close>, where B is a node with an empty rule:
  \<open>initialize\<close> gives B no entry in \<open>network.state\<close>, and the rule compiles to
  \<open>function (state) { return !state['A'] && state['B']; }\<close>.
\<close>

definition input_network :: network where
  "input_network = \<lparr>rules = [(''A'', ''!A && B''), (''B'', '''')], state = [(''A'', JBool True)]\<rparr>"

definition input_rules :: rulefuns where
  "input_rules i st = (if i = ''A'' then js_and (js_not (get st ''A'')) (get st ''B'') else JUndefined)"

section \<open>Auxiliary notions of the statements\<close>

text \<open>The character that encodes a Boolean, and the value a key's position decodes to.\<close>

definition bit_char :: "jsval \<Rightarrow> char" where
  "bit_char v = (if v = JBool True then CHR ''1'' else CHR ''0'')"

definition bit_at :: "string \<Rightarrow> nat \<Rightarrow> jsval" where
  "bit_at m j = JBool (Boolean_num (parseInt10 (char_at m j)))"

text \<open>
  The state after one call of \<open>synchronousUpdate\<close>, and the states a trajectory visits
  from \<open>st\<close> in \<open>k\<close> steps.
\<close>

definition step :: "network \<Rightarrow> rulefuns \<Rightarrow> jsval jsobj \<Rightarrow> jsval jsobj" where
  "step net ruleFunctions st = snd (synchronousUpdate net ruleFunctions st)"

fun orbit :: "network \<Rightarrow> rulefuns \<Rightarrow> jsval jsobj \<Rightarrow> nat \<Rightarrow> jsval jsobj list" where
  "orbit net ruleFunctions st 0 = [st]"
| "orbit net ruleFunctions st (Suc k) = st # orbit net ruleFunctions (step net ruleFunctions st) k"

text \<open>
  A full state has the keys of \<open>network.state\<close>, in their order, and Boolean values.
  Rule functions are Boolean when they return a Boolean on every full state, as a rule
  text over the dynamic nodes, \<open>true\<close>, \<open>false\<close>, \<open>&&\<close>, \<open>||\<close> and \<open>!\<close> does.
  \<open>bool_keys n\<close> are the keys of \<open>n\<close> characters 0 or 1.
\<close>

definition full_state :: "network \<Rightarrow> jsval jsobj \<Rightarrow> bool" where
  "full_state net st \<longleftrightarrow> keys st = keys (state net) \<and> (\<forall>p \<in> set st. snd p \<noteq> JUndefined)"

definition boolean_rules :: "network \<Rightarrow> rulefuns \<Rightarrow> bool" where
  "boolean_rules net ruleFunctions \<longleftrightarrow>
     (\<forall>i \<in> set (keys (state net)). \<forall>st. full_state net st \<longrightarrow> ruleFunctions i st \<noteq> JUndefined)"

definition bool_keys :: "nat \<Rightarrow> string set" where
  "bool_keys n = {m. set m \<subseteq> {CHR ''0'', CHR ''1''} \<and> length m = n}"

text \<open>The states whose keys are those of \<open>network.state\<close>, whatever their values.\<close>

definition keyed_states :: "network \<Rightarrow> jsval jsobj set" where
  "keyed_states net = {st. keys st = keys (state net)}"

section \<open>Objects\<close>

lemma keys_Nil: "keys [] = []"
  by (simp add: keys_def)

lemma map_of_put: "map_of (put s k v) = (map_of s)(k \<mapsto> v)"
  by (induction s) (auto simp: fun_eq_iff)

lemma get_put: "get (put s k v) k' = (if k' = k then v else get s k')"
  by (simp add: get_def map_of_put)

lemma keys_put: "keys (put s k v) = (if k \<in> set (keys s) then keys s else keys s @ [k])"
  by (induction s) (auto simp: keys_def)

lemma get_entry: "distinct (keys st) \<Longrightarrow> (k, v) \<in> set st \<Longrightarrow> get st k = v"
  by (simp add: get_def keys_def)

section \<open>The synchronous update, loop by loop\<close>

lemma candidates_fold:
  "fold (\<lambda>i (newState, changed).
             let newState' = put newState i (rf i st)
             in (newState', if get newState' i \<noteq> get st i then changed @ [i] else changed))
          ks (ns, ch)
   = (fold (\<lambda>i n. put n i (rf i st)) ks ns, ch @ filter (\<lambda>i. rf i st \<noteq> get st i) ks)"
  by (induction ks arbitrary: ns ch) (simp_all add: Let_def get_put)

lemma get_fold_put:
  "get (fold (\<lambda>i n. put n i (f i)) ks ns) k = (if k \<in> set ks then f k else get ns k)"
  by (induction ks arbitrary: ns) (auto simp: get_put)

lemma snd_candidates: "snd (candidates rf st ks) = filter (\<lambda>i. rf i st \<noteq> get st i) ks"
  by (simp add: candidates_def candidates_fold)

lemma get_fst_candidates:
  "get (fst (candidates rf st ks)) k = (if k \<in> set ks then rf k st else JUndefined)"
  by (simp add: candidates_def candidates_fold get_fold_put) (simp add: get_def)

lemma map_of_apply_changed:
  "map_of (apply_changed ns ch st) k = (if k \<in> set ch then Some (get ns k) else map_of st k)"
  unfolding apply_changed_def
  by (induction ch arbitrary: st) (auto simp: map_of_put)

lemma apply_changed_Nil: "apply_changed ns [] st = st"
  by (simp add: apply_changed_def)

lemma keys_apply_changed:
  "set ch \<subseteq> set (keys st) \<Longrightarrow> keys (apply_changed ns ch st) = keys st"
  unfolding apply_changed_def
  by (induction ch arbitrary: st) (auto simp: keys_put)

lemma fst_synchronousUpdate:
  "fst (synchronousUpdate net rf st) = filter (\<lambda>i. rf i st \<noteq> get st i) (keys (state net))"
  by (simp add: synchronousUpdate_def split_beta snd_candidates)

lemma snd_synchronousUpdate:
  "snd (synchronousUpdate net rf st) =
     apply_changed (fst (candidates rf st (keys (state net))))
       (filter (\<lambda>i. rf i st \<noteq> get st i) (keys (state net))) st"
  by (simp add: synchronousUpdate_def split_beta snd_candidates)

lemma map_of_synchronousUpdate:
  "map_of (snd (synchronousUpdate net rf st)) k =
     (if k \<in> set (fst (synchronousUpdate net rf st)) then Some (rf k st) else map_of st k)"
  by (auto simp: snd_synchronousUpdate fst_synchronousUpdate map_of_apply_changed
      get_fst_candidates)

lemma get_synchronousUpdate:
  "get (snd (synchronousUpdate net rf st)) k =
     (if k \<in> set (fst (synchronousUpdate net rf st)) then rf k st else get st k)"
  by (simp add: get_def map_of_synchronousUpdate)

lemma negation_step:
  "synchronousUpdate negation_network negation_rules [(''A'', JBool a), (''B'', JBool b)] =
     (if a = b then ([''A'', ''B''], [(''A'', JBool (\<not> a)), (''B'', JBool (\<not> b))])
      else ([], [(''A'', JBool a), (''B'', JBool b)]))"
  by (cases a; cases b)
     (simp_all add: synchronousUpdate_def candidates_def apply_changed_def negation_network_def
        negation_rules_def keys_def get_def js_not_def truthy_def)

text \<open>
  C1 (as amended). Every dynamic node's value after \<open>synchronousUpdate\<close> is its rule
  function applied to the state as it was before the call: no rule sees a value written
  in the same step. In the network of two nodes that negate each other, a step from a
  state where both nodes hold the same value changes both (true/true and false/false
  follow each other for ever), and a state where the two values differ is left as it is.
\<close>

theorem synchronousUpdate_synchronous:
  "(\<forall>i \<in> set (keys (state net)).
      get (snd (synchronousUpdate net ruleFunctions st)) i = ruleFunctions i st) \<and>
   (\<forall>a b. synchronousUpdate negation_network negation_rules [(''A'', JBool a), (''B'', JBool b)] =
      (if a = b then ([''A'', ''B''], [(''A'', JBool (\<not> a)), (''B'', JBool (\<not> b))])
       else ([], [(''A'', JBool a), (''B'', JBool b)])))"
proof -
  have "\<forall>i \<in> set (keys (state net)).
      get (snd (synchronousUpdate net ruleFunctions st)) i = ruleFunctions i st"
    by (auto simp: get_synchronousUpdate fst_synchronousUpdate)
  with negation_step show ?thesis by blast
qed

theorem synchronousUpdate_synchronous_witness:
  "get (snd (synchronousUpdate negation_network negation_rules
              [(''A'', JBool True), (''B'', JBool True)])) ''A''
     = negation_rules ''A'' [(''A'', JBool True), (''B'', JBool True)] \<and>
   get (snd (synchronousUpdate negation_network negation_rules
              [(''A'', JBool True), (''B'', JBool True)])) ''B''
     = negation_rules ''B'' [(''A'', JBool True), (''B'', JBool True)] \<and>
   negation_rules ''B'' [(''A'', JBool True), (''B'', JBool True)] = JBool False"
  using synchronousUpdate_synchronous[of negation_network negation_rules
          "[(''A'', JBool True), (''B'', JBool True)]"]
  by (simp add: negation_network_def keys_def negation_rules_def js_not_def truthy_def get_def)

text \<open>
  C1 as the spec states it fails: from A true, B false the two-node network does not
  change at all, although each rule is the negation of the other node.
\<close>

theorem negation_network_fixed_point:
  "synchronousUpdate negation_network negation_rules [(''A'', JBool True), (''B'', JBool False)]
     = ([], [(''A'', JBool True), (''B'', JBool False)])"
  by (simp add: synchronousUpdate_def candidates_def apply_changed_def negation_network_def
        negation_rules_def keys_def get_def js_not_def truthy_def)

text \<open>
  C5. After \<open>synchronousUpdate\<close>, an identifier that is not in the returned list has the
  entry it had before (or still none); an identifier in the list holds the value of its
  rule function on the state before the call, and that value differs from the one it
  held; the list holds exactly the identifiers whose value changed.
\<close>

theorem synchronousUpdate_frame:
  assumes "synchronousUpdate net ruleFunctions st = (changed, st')"
  shows "(\<forall>k. k \<notin> set changed \<longrightarrow> map_of st' k = map_of st k) \<and>
         (\<forall>k \<in> set changed. get st' k = ruleFunctions k st \<and> ruleFunctions k st \<noteq> get st k) \<and>
         (\<forall>k. k \<in> set changed \<longleftrightarrow> get st' k \<noteq> get st k)"
proof -
  have c: "changed = fst (synchronousUpdate net ruleFunctions st)"
    and s: "st' = snd (synchronousUpdate net ruleFunctions st)"
    using assms by simp_all
  have 1: "\<forall>k. k \<notin> set changed \<longrightarrow> map_of st' k = map_of st k"
    by (simp add: s map_of_synchronousUpdate c)
  have 2: "\<forall>k \<in> set changed. get st' k = ruleFunctions k st \<and> ruleFunctions k st \<noteq> get st k"
    unfolding s get_synchronousUpdate unfolding c fst_synchronousUpdate by simp
  have 3: "\<forall>k. k \<in> set changed \<longleftrightarrow> get st' k \<noteq> get st k"
    unfolding s get_synchronousUpdate unfolding c fst_synchronousUpdate by auto
  from 1 2 3 show ?thesis by blast
qed

theorem synchronousUpdate_frame_witness:
  "synchronousUpdate negation_network negation_rules [(''A'', JBool True), (''B'', JBool True)]
     = ([''A'', ''B''], [(''A'', JBool False), (''B'', JBool False)]) \<and>
   map_of [(''A'', JBool False), (''B'', JBool False)] ''C''
     = map_of [(''A'', JBool True), (''B'', JBool True)] ''C'' \<and>
   get [(''A'', JBool False), (''B'', JBool False)] ''A''
     = negation_rules ''A'' [(''A'', JBool True), (''B'', JBool True)] \<and>
   negation_rules ''A'' [(''A'', JBool True), (''B'', JBool True)]
     \<noteq> get [(''A'', JBool True), (''B'', JBool True)] ''A''"
proof -
  have h: "synchronousUpdate negation_network negation_rules
             [(''A'', JBool True), (''B'', JBool True)]
     = ([''A'', ''B''], [(''A'', JBool False), (''B'', JBool False)])"
    by (simp add: negation_step)
  from synchronousUpdate_frame[OF h] h show ?thesis by simp
qed

text \<open>
  C6. When every rule function gives its node's current value, \<open>synchronousUpdate\<close>
  returns the empty list; and whenever it returns the empty list, the state after the
  call is the state before it.
\<close>

theorem fixed_point_detection:
  "((\<forall>i \<in> set (keys (state net)). ruleFunctions i st = get st i)
      \<longrightarrow> fst (synchronousUpdate net ruleFunctions st) = []) \<and>
   (fst (synchronousUpdate net ruleFunctions st) = []
      \<longrightarrow> snd (synchronousUpdate net ruleFunctions st) = st)"
  by (simp add: fst_synchronousUpdate snd_synchronousUpdate apply_changed_Nil filter_empty_conv)

theorem fixed_point_detection_witness:
  "negation_rules ''A'' [(''A'', JBool True), (''B'', JBool False)]
     = get [(''A'', JBool True), (''B'', JBool False)] ''A'' \<and>
   negation_rules ''B'' [(''A'', JBool True), (''B'', JBool False)]
     = get [(''A'', JBool True), (''B'', JBool False)] ''B'' \<and>
   fst (synchronousUpdate negation_network negation_rules
          [(''A'', JBool True), (''B'', JBool False)]) = [] \<and>
   snd (synchronousUpdate negation_network negation_rules
          [(''A'', JBool True), (''B'', JBool False)]) = [(''A'', JBool True), (''B'', JBool False)]"
  using fixed_point_detection[of negation_network negation_rules
          "[(''A'', JBool True), (''B'', JBool False)]"]
  by (simp add: negation_network_def keys_def negation_rules_def js_not_def truthy_def get_def)

section \<open>The codec\<close>

lemma fold_append_string:
  "fold (\<lambda>i m. m @ f i) ks acc = acc @ concat (map f ks)"
  by (induction ks arbitrary: acc) simp_all

lemma encodeStateMap_concat:
  "encodeStateMap st = concat (map (\<lambda>i. plus_string (get st i)) (keys st))"
  by (simp add: encodeStateMap_def fold_append_string)

lemma encodeStateMap_entries:
  assumes "distinct (keys st)"
  shows "encodeStateMap st = concat (map (\<lambda>p. plus_string (snd p)) st)"
proof -
  have "map (\<lambda>i. plus_string (get st i)) (keys st) = map (\<lambda>p. plus_string (snd p)) st"
    unfolding keys_def map_map
    by (rule map_cong) (auto simp: get_entry[OF assms])
  then show ?thesis by (simp add: encodeStateMap_concat)
qed

lemma plus_string_bool: "v \<noteq> JUndefined \<Longrightarrow> plus_string v = [bit_char v]"
  by (cases v rule: plus_string.cases) (simp_all add: bit_char_def)

lemma concat_plus_string:
  "\<forall>p \<in> set st. snd p \<noteq> JUndefined \<Longrightarrow>
   concat (map (\<lambda>p. plus_string (snd p)) st) = map (\<lambda>p. bit_char (snd p)) st"
  by (induction st) (simp_all add: plus_string_bool)

lemma encodeStateMap_bool:
  assumes "distinct (keys st)" and "\<forall>p \<in> set st. snd p \<noteq> JUndefined"
  shows "encodeStateMap st = map (\<lambda>p. bit_char (snd p)) st"
  by (simp add: encodeStateMap_entries[OF assms(1)] concat_plus_string[OF assms(2)])

lemma put_fold_fresh:
  "distinct ks \<Longrightarrow> set ks \<inter> set (keys acc) = {} \<Longrightarrow>
   fold (\<lambda>i (st, j). (put st i (f j), Suc j)) ks (acc, j0)
   = (acc @ map (\<lambda>(j, i). (i, f j)) (enumerate j0 ks), j0 + length ks)"
proof (induction ks arbitrary: acc j0)
  case Nil
  then show ?case by simp
next
  case (Cons k ks)
  have p: "put acc k v = acc @ [(k, v)]" for v
    using Cons.prems(2) by (induction acc) (auto simp: keys_def)
  have "set ks \<inter> set (keys (acc @ [(k, f j0)])) = {}"
    using Cons.prems by (auto simp: keys_def)
  with Cons.IH[of "acc @ [(k, f j0)]" "Suc j0"] Cons.prems(1)
  show ?case by (simp add: p)
qed

lemma keys_put_fold:
  "set (keys (fst (fold (\<lambda>i (st, j). (put st i (f j), Suc j)) ks (acc, j0))))
     = set (keys acc) \<union> set ks"
  by (induction ks arbitrary: acc j0) (auto simp: keys_put split: if_splits)

lemma decodeStateMap_enumerate:
  "distinct (keys (state net)) \<Longrightarrow>
   decodeStateMap net m = map (\<lambda>(j, i). (i, bit_at m j)) (enumerate 0 (keys (state net)))"
  unfolding decodeStateMap_def
  using put_fold_fresh[of "keys (state net)" "[]"
          "\<lambda>j. JBool (Boolean_num (parseInt10 (char_at m j)))" 0]
  by (simp add: keys_Nil bit_at_def)

lemma bit_at_bit_char:
  "j < length m \<Longrightarrow> m ! j = bit_char v \<Longrightarrow> v \<noteq> JUndefined \<Longrightarrow> bit_at m j = v"
  by (cases v rule: plus_string.cases)
     (simp_all add: bit_at_def char_at_def parseInt10_def Boolean_num_def bit_char_def)

text \<open>
  C2. For a state with exactly one entry per dynamic node, in the order of
  \<open>network.state\<close>, all Boolean: decoding its key gives the state back, and the key has
  one character per entry, 1 for true and 0 for false, in that order.
\<close>

theorem codec_round_trip:
  assumes "distinct (keys (state net))"
    and "keys s = keys (state net)"
    and "\<forall>p \<in> set s. snd p \<noteq> JUndefined"
  shows "decodeStateMap net (encodeStateMap s) = s \<and>
         encodeStateMap s = map (\<lambda>p. bit_char (snd p)) s"
proof -
  have d: "distinct (keys s)" using assms by simp
  have e: "encodeStateMap s = map (\<lambda>p. bit_char (snd p)) s"
    by (rule encodeStateMap_bool[OF d assms(3)])
  have "map (\<lambda>(j, i). (i, bit_at (encodeStateMap s) j)) (enumerate 0 (keys s)) = s"
  proof (rule nth_equalityI)
    show "length (map (\<lambda>(j, i). (i, bit_at (encodeStateMap s) j)) (enumerate 0 (keys s)))
            = length s"
      by (simp add: keys_def)
  next
    fix j
    assume "j < length (map (\<lambda>(j, i). (i, bit_at (encodeStateMap s) j)) (enumerate 0 (keys s)))"
    then have j: "j < length s" by (simp add: keys_def)
    then have "snd (s ! j) \<noteq> JUndefined" using assms(3) by simp
    with j have "bit_at (encodeStateMap s) j = snd (s ! j)"
      by (intro bit_at_bit_char) (simp_all add: e)
    with j show "map (\<lambda>(j, i). (i, bit_at (encodeStateMap s) j)) (enumerate 0 (keys s)) ! j
                   = s ! j"
      by (simp add: keys_def nth_enumerate_eq prod_eq_iff)
  qed
  with assms(1,2) e show ?thesis
    by (simp add: decodeStateMap_enumerate)
qed

theorem codec_round_trip_witness:
  "decodeStateMap negation_network (encodeStateMap [(''A'', JBool True), (''B'', JBool False)])
     = [(''A'', JBool True), (''B'', JBool False)] \<and>
   encodeStateMap [(''A'', JBool True), (''B'', JBool False)] = ''10''"
  using codec_round_trip[of negation_network "[(''A'', JBool True), (''B'', JBool False)]"]
  by (simp add: negation_network_def keys_def bit_char_def encodeStateMap_def decodeStateMap_def
      get_def char_at_def parseInt10_def Boolean_num_def)

lemma keys_decodeStateMap:
  "distinct (keys (state net)) \<Longrightarrow> keys (decodeStateMap net m) = keys (state net)"
  by (simp add: decodeStateMap_enumerate keys_def map_snd_enumerate comp_def split_beta)

lemma bool_decodeStateMap:
  "distinct (keys (state net)) \<Longrightarrow> p \<in> set (decodeStateMap net m) \<Longrightarrow> snd p \<noteq> JUndefined"
  by (auto simp: decodeStateMap_enumerate bit_at_def)

lemma get_decodeStateMap:
  assumes "distinct (keys (state net))" and "j < length (keys (state net))"
  shows "get (decodeStateMap net m) (keys (state net) ! j) = bit_at m j"
proof -
  have "(keys (state net) ! j, bit_at m j) \<in> set (decodeStateMap net m)"
    unfolding decodeStateMap_enumerate[OF assms(1)] set_map
    using assms(2) by (force simp: in_set_enumerate_eq)
  moreover have "distinct (keys (decodeStateMap net m))"
    by (simp add: keys_decodeStateMap assms(1))
  ultimately show ?thesis by (rule get_entry[rotated])
qed

lemma bit_at_False:
  "length m \<le> j \<or> m ! j \<notin> set ''0123456789'' \<Longrightarrow> bit_at m j = JBool False"
  by (auto simp: bit_at_def char_at_def parseInt10_def Boolean_num_def)

lemma bit_at_append: "j < length m \<Longrightarrow> bit_at (m @ extra) j = bit_at m j"
  by (simp add: bit_at_def char_at_def nth_append)

text \<open>
  C10. \<open>decodeStateMap\<close> is defined on every string. The state it returns has exactly the
  keys of \<open>network.state\<close>, in their order, all with Boolean values; a node whose
  character is missing (the string is too short) or is not a decimal digit is false;
  characters beyond the number of dynamic nodes are not read.
\<close>

theorem decodeStateMap_total:
  assumes "distinct (keys (state net))"
  shows "keys (decodeStateMap net m) = keys (state net) \<and>
         (\<forall>p \<in> set (decodeStateMap net m). snd p \<noteq> JUndefined) \<and>
         (\<forall>j < length (keys (state net)).
            length m \<le> j \<or> m ! j \<notin> set ''0123456789''
              \<longrightarrow> get (decodeStateMap net m) (keys (state net) ! j) = JBool False) \<and>
         (length (keys (state net)) \<le> length m
            \<longrightarrow> decodeStateMap net (m @ extra) = decodeStateMap net m)"
proof -
  have 3: "\<forall>j < length (keys (state net)).
            length m \<le> j \<or> m ! j \<notin> set ''0123456789''
              \<longrightarrow> get (decodeStateMap net m) (keys (state net) ! j) = JBool False"
    using get_decodeStateMap[OF assms] bit_at_False by simp
  have 4: "decodeStateMap net (m @ extra) = decodeStateMap net m"
    if "length (keys (state net)) \<le> length m"
    unfolding decodeStateMap_enumerate[OF assms]
    by (rule map_cong) (use that in \<open>auto simp: in_set_enumerate_eq bit_at_append\<close>)
  from 3 4 keys_decodeStateMap[OF assms] bool_decodeStateMap[OF assms]
  show ?thesis by blast
qed

theorem decodeStateMap_total_witness:
  "keys (decodeStateMap negation_network ''x'') = [''A'', ''B''] \<and>
   get (decodeStateMap negation_network ''x'') ''A'' = JBool False \<and>
   get (decodeStateMap negation_network ''x'') ''B'' = JBool False \<and>
   decodeStateMap negation_network (''10'' @ ''11'') = decodeStateMap negation_network ''10'' \<and>
   decodeStateMap negation_network ''10'' = [(''A'', JBool True), (''B'', JBool False)]"
  using decodeStateMap_total[of negation_network "''x''" "''11''"]
        decodeStateMap_total[of negation_network "''10''" "''11''"]
  by (simp add: negation_network_def keys_def decodeStateMap_def get_def char_at_def
      parseInt10_def Boolean_num_def)

text \<open>
  C8 as the spec states it fails: \<open>encodeStateMap\<close> has no failure. For a state that
  lacks the dynamic node B it returns the key of the entries that are there.
\<close>

theorem encodeStateMap_partial_state:
  "''B'' \<in> set (keys (state negation_network)) \<and>
   ''B'' \<notin> set (keys [(''A'', JBool True)]) \<and>
   encodeStateMap [(''A'', JBool True)] = ''1''"
  by (simp add: negation_network_def keys_def encodeStateMap_def get_def)

text \<open>
  C8 (as amended). \<open>encodeStateMap\<close> returns a key for every state: what each entry of
  the state appends, in the state's own order. For a state that lacks some dynamic node
  (distinct keys, all among the dynamic nodes, Boolean values) the key has one character
  per entry it does have, and is shorter than the number of dynamic nodes.
\<close>

theorem encodeStateMap_returns_key:
  "encodeStateMap st = concat (map (\<lambda>i. plus_string (get st i)) (keys st)) \<and>
   (distinct (keys st) \<and> (\<forall>p \<in> set st. snd p \<noteq> JUndefined) \<and>
    set (keys st) \<subset> set (keys (state net))
      \<longrightarrow> encodeStateMap st = map (\<lambda>p. bit_char (snd p)) st \<and>
          length (encodeStateMap st) < length (keys (state net)))"
proof -
  have "length (encodeStateMap st) < length (keys (state net))"
    if d: "distinct (keys st)" and b: "\<forall>p \<in> set st. snd p \<noteq> JUndefined"
      and sub: "set (keys st) \<subset> set (keys (state net))"
  proof -
    have "length (encodeStateMap st) = length (keys st)"
      by (simp add: encodeStateMap_bool[OF d b] keys_def)
    also have "\<dots> = card (set (keys st))"
      using d by (simp add: distinct_card)
    also have "\<dots> < card (set (keys (state net)))"
      using sub by (simp add: psubset_card_mono)
    also have "\<dots> \<le> length (keys (state net))"
      by (rule card_length)
    finally show ?thesis .
  qed
  then show ?thesis
    using encodeStateMap_concat encodeStateMap_bool by blast
qed

theorem encodeStateMap_returns_key_witness:
  "distinct (keys [(''A'', JBool True)]) \<and>
   set (keys [(''A'', JBool True)]) \<subset> set (keys (state negation_network)) \<and>
   encodeStateMap [(''A'', JBool True)] = ''1'' \<and>
   length (encodeStateMap [(''A'', JBool True)]) < length (keys (state negation_network))"
  using encodeStateMap_returns_key[of "[(''A'', JBool True)]" negation_network]
  by (auto simp: negation_network_def keys_def bit_char_def)

section \<open>The exports\<close>

text \<open>
  C7. On the rule text \<open>A && !B || true\<close> the R BoolNet export writes
  \<open>A & !B | TRUE\<close>. The Python BooleanNet export replaces \<open>!\<close> by \<open>not\<close> with no
  space after it and writes \<open>A and notB or True\<close>, where \<open>notB\<close> is an identifier, not
  the negation of B.
\<close>

theorem export_operator_translation:
  "exportRBoolNet \<lparr>rules = [(''A'', ''A && !B || true''), (''B'', ''B'')],
                   state = [(''A'', JBool False), (''B'', JBool False)]\<rparr>
     = ''targets, factors\<newline>A, A & !B | TRUE\<newline>B, B\<newline>'' \<and>
   exportPythonBooleanNet \<lparr>rules = [(''A'', ''A && !B || true''), (''B'', ''B'')],
                           state = [(''A'', JBool False), (''B'', JBool False)]\<rparr>
     = ''A* = A and notB or True\<newline>B* = B\<newline>''"
  by code_simp

section \<open>The attractor search\<close>

lemma indexOf_None: "indexOf xs x = None \<longleftrightarrow> x \<notin> set xs"
  by (induction xs) auto

lemma indexOf_Some:
  "x \<in> set xs \<Longrightarrow> \<exists>idx. indexOf xs x = Some idx \<and> drop idx xs = dropWhile (\<lambda>k. k \<noteq> x) xs"
  by (induction xs) auto

lemma attractor_slice:
  "(case indexOf currStates m of Some idx \<Rightarrow> attractors @ [drop idx currStates]
    | None \<Rightarrow> attractors)
   = (if m \<in> set currStates then attractors @ [dropWhile (\<lambda>k. k \<noteq> m) currStates]
      else attractors)"
proof (cases "m \<in> set currStates")
  case True
  from indexOf_Some[OF this] show ?thesis using True by auto
next
  case False
  then have "indexOf currStates m = None" by (simp add: indexOf_None)
  with False show ?thesis by simp
qed

lemma trajectory_break:
  "node doc (encodeStateMap st) \<Longrightarrow>
   trajectory net scopes statesList i ruleFunctions doc attractors currStates prev st j =
     Some (Inr ((ruleFunctions,
                 if prev \<noteq> []
                 then createArc doc (prev @ ''->'' @ encodeStateMap st) prev (encodeStateMap st)
                 else doc,
                 if encodeStateMap st \<in> set currStates
                 then attractors @ [dropWhile (\<lambda>k. k \<noteq> encodeStateMap st) currStates]
                 else attractors), j))"
  by (subst trajectory.simps) (simp add: Let_def attractor_slice)

lemma trajectory_continue:
  "\<not> node doc (encodeStateMap st) \<Longrightarrow>
   trajectory net scopes statesList i ruleFunctions doc attractors currStates prev st j =
     (case (if scopes
            then map_sum id (updateNodeRules ruleFunctions) (remote_state statesList i (Suc j))
            else Inr ruleFunctions) of
        Inl e \<Rightarrow> Some (Inl e)
      | Inr ruleFunctions' \<Rightarrow>
          trajectory net scopes statesList i ruleFunctions'
            (if prev \<noteq> []
             then createArc (createNode doc (encodeStateMap st))
                    (prev @ ''->'' @ encodeStateMap st) prev (encodeStateMap st)
             else createNode doc (encodeStateMap st))
            attractors (currStates @ [encodeStateMap st]) (encodeStateMap st)
            (snd (synchronousUpdate net ruleFunctions' st)) (Suc j))"
  by (subst trajectory.simps) (simp add: Let_def)

lemma nodes_createArc: "nodes (createArc doc a b c) = nodes doc"
  by (simp add: createArc_def)

lemma nodes_createNode: "nodes (createNode doc m) = nodes doc @ [m]"
  by (simp add: createNode_def)

lemma true_step:
  "synchronousUpdate true_network true_rules [(''A'', JBool b)] =
     (if b then [] else [''A''], [(''A'', JBool True)])"
  by (cases b)
     (simp_all add: synchronousUpdate_def candidates_def apply_changed_def true_network_def
        true_rules_def keys_def get_def)

lemma true_encode: "encodeStateMap [(''A'', JBool b)] = (if b then ''1'' else ''0'')"
  by (simp add: encodeStateMap_def keys_def get_def)




section \<open>Termination of the search\<close>

lemma finite_bool_keys: "finite (bool_keys n)"
  unfolding bool_keys_def by (rule finite_lists_length_eq) simp

lemma card_bool_keys: "card (bool_keys n) = 2 ^ n"
proof -
  have "card {CHR ''0'', CHR ''1''} = (2::nat)" by simp
  moreover have "card {m. set m \<subseteq> {CHR ''0'', CHR ''1''} \<and> length m = n}
                   = card {CHR ''0'', CHR ''1''} ^ n"
    by (rule card_lists_length_eq) simp
  ultimately show ?thesis
    unfolding bool_keys_def by (simp only:)
qed

lemma encodeStateMap_bool_keys:
  assumes "distinct (keys (state net))" and "full_state net st"
  shows "encodeStateMap st \<in> bool_keys (length (keys (state net)))"
proof -
  from assms have d: "distinct (keys st)" and b: "\<forall>p \<in> set st. snd p \<noteq> JUndefined"
    and k: "keys st = keys (state net)"
    by (simp_all add: full_state_def)
  have "length st = length (keys (state net))"
    using k by (simp add: keys_def) (metis length_map)
  then show ?thesis
    by (auto simp: encodeStateMap_bool[OF d b] bool_keys_def bit_char_def)
qed

lemma full_state_step:
  assumes d: "distinct (keys (state net))" and r: "boolean_rules net rf" and f: "full_state net st"
  shows "full_state net (snd (synchronousUpdate net rf st))"
proof -
  let ?st' = "snd (synchronousUpdate net rf st)"
  from f have k: "keys st = keys (state net)" and b: "\<forall>p \<in> set st. snd p \<noteq> JUndefined"
    by (simp_all add: full_state_def)
  have k': "keys ?st' = keys (state net)"
    unfolding snd_synchronousUpdate using k by (simp add: keys_apply_changed)
  have "snd p \<noteq> JUndefined" if p: "p \<in> set ?st'" for p
  proof -
    have "fst p \<in> set (keys ?st')"
      using p by (simp add: keys_def)
    then have i: "fst p \<in> set (keys (state net))"
      by (simp only: k')
    have "get ?st' (fst p) = snd p"
      using p d k' by (intro get_entry) simp_all
    moreover have "rf (fst p) st \<noteq> JUndefined"
      using r i f by (simp add: boolean_rules_def)
    moreover have "get st (fst p) \<noteq> JUndefined"
    proof -
      from i k have "fst p \<in> fst ` set st"
        by (simp add: keys_def) (metis list.set_map)
      then obtain q where q: "q \<in> set st" "fst q = fst p"
        by auto
      then have "(fst p, snd q) \<in> set st"
        by (metis prod.collapse)
      then have "get st (fst p) = snd q"
        using d k by (intro get_entry) simp_all
      with b q show ?thesis by simp
    qed
    ultimately show ?thesis
      by (simp add: get_synchronousUpdate split: if_splits)
  qed
  with k' show ?thesis by (simp add: full_state_def)
qed

lemma updateNodeRules_cases:
  assumes "R (rf i)" and "R (\<lambda>_. JBool True)" and "R (\<lambda>_. JBool False)"
  shows "R (updateNodeRules rf s i)"
proof -
  have "R (fold (\<lambda>i rf. if map_of s i = Some True then rf(i := (\<lambda>_. JBool True))
                   else rf(i := (\<lambda>_. JBool False))) ks rf i)" if "R (rf i)" for ks rf
    using that
  proof (induction ks arbitrary: rf)
    case Nil
    then show ?case by simp
  next
    case (Cons k ks)
    have "R ((rf(k := (\<lambda>_. JBool True))) i)" and "R ((rf(k := (\<lambda>_. JBool False))) i)"
      using Cons.prems assms(2,3) by simp_all
    then show ?case
      using Cons.IH[of "rf(k := (\<lambda>_. JBool True))"] Cons.IH[of "rf(k := (\<lambda>_. JBool False))"]
      by (simp del: fun_upd_apply)
  qed
  with assms(1) show ?thesis by (simp add: updateNodeRules_def)
qed

lemma boolean_rules_updateNodeRules:
  assumes "boolean_rules net rf"
  shows "boolean_rules net (updateNodeRules rf s)"
  unfolding boolean_rules_def
proof (intro ballI allI impI)
  fix i st
  assume i: "i \<in> set (keys (state net))" and f: "full_state net st"
  show "updateNodeRules rf s i st \<noteq> JUndefined"
    by (rule updateNodeRules_cases[where R="\<lambda>g. g st \<noteq> JUndefined"])
       (use assms i f in \<open>simp_all add: boolean_rules_def\<close>)
qed

lemma UNIV_jsval: "(UNIV :: jsval set) = {JBool True, JBool False, JUndefined}"
proof -
  have "v \<in> {JBool True, JBool False, JUndefined}" for v
    by (cases v rule: plus_string.cases) simp_all
  then show ?thesis by blast
qed

lemma card_UNIV_jsval: "card (UNIV :: jsval set) = 3"
  by (simp add: UNIV_jsval)

lemma keyed_states_zip:
  "keyed_states net = zip (keys (state net)) ` {vs. set vs \<subseteq> UNIV \<and> length vs = length (keys (state net))}"
proof (intro set_eqI iffI)
  fix st :: "jsval jsobj"
  assume "st \<in> keyed_states net"
  then have k: "map fst st = keys (state net)"
    by (simp add: keyed_states_def keys_def)
  then have "st = zip (keys (state net)) (map snd st)"
    by (simp add: zip_map_fst_snd flip: k)
  moreover have "length (map snd st) = length (keys (state net))"
    by (simp flip: k)
  ultimately show "st \<in> zip (keys (state net)) ` {vs. set vs \<subseteq> UNIV \<and> length vs = length (keys (state net))}"
    by blast
next
  fix st :: "jsval jsobj"
  assume "st \<in> zip (keys (state net)) ` {vs. set vs \<subseteq> UNIV \<and> length vs = length (keys (state net))}"
  then show "st \<in> keyed_states net"
    by (auto simp: keyed_states_def keys_def)
qed

lemma finite_value_lists: "finite {vs :: jsval list. set vs \<subseteq> UNIV \<and> length vs = n}"
  by (rule finite_lists_length_eq) (simp add: UNIV_jsval)

lemma finite_state_keys: "finite (encodeStateMap ` keyed_states net)"
  unfolding keyed_states_zip by (intro finite_imageI finite_value_lists)

lemma card_state_keys: "card (encodeStateMap ` keyed_states net) \<le> 3 ^ length (keys (state net))"
proof -
  let ?V = "{vs :: jsval list. set vs \<subseteq> UNIV \<and> length vs = length (keys (state net))}"
  have "card (encodeStateMap ` keyed_states net) \<le> card (keyed_states net)"
    unfolding keyed_states_zip by (intro card_image_le finite_imageI finite_value_lists)
  also have "\<dots> \<le> card ?V"
    unfolding keyed_states_zip by (intro card_image_le finite_value_lists)
  also have "\<dots> = card (UNIV :: jsval set) ^ length (keys (state net))"
    by (rule card_lists_length_eq) (simp add: UNIV_jsval)
  finally show ?thesis by (simp only: card_UNIV_jsval)
qed

lemma keyed_states_step:
  assumes "st \<in> keyed_states net"
  shows "snd (synchronousUpdate net rf st) \<in> keyed_states net"
  using assms unfolding keyed_states_def snd_synchronousUpdate
  by (simp add: keys_apply_changed)

lemma keyed_states_key: "st \<in> keyed_states net \<Longrightarrow> encodeStateMap st \<in> encodeStateMap ` keyed_states net"
  by simp

lemma card_fresh_key:
  assumes "finite K" and "m \<in> K" and "m \<notin> set ns"
  shows "card (K - set (ns @ [m])) < card (K - set ns)"
proof -
  have "K - set (ns @ [m]) \<subset> K - set ns"
    using assms(2,3) by auto
  then show ?thesis
    by (intro psubset_card_mono) (simp_all add: assms(1))
qed

lemma trajectory_ends:
  assumes step_inv: "\<And>rf st. R rf \<Longrightarrow> S st \<Longrightarrow> S (snd (synchronousUpdate net rf st))"
    and upd_inv: "\<And>rf s. R rf \<Longrightarrow> R (updateNodeRules rf s)"
    and key_inv: "\<And>st. S st \<Longrightarrow> encodeStateMap st \<in> K"
    and fin: "finite K"
  shows "R rf \<Longrightarrow> S st \<Longrightarrow> card (K - set (nodes doc)) \<le> c \<Longrightarrow>
         \<exists>res. trajectory net scopes statesList i rf doc attractors currStates prev st j = Some res \<and>
           (case res of Inl e \<Rightarrow> scopes
            | Inr ((rf', doc', attractors'), j') \<Rightarrow> R rf' \<and> j' \<le> j + c)"
proof (induction c arbitrary: rf doc currStates prev st j)
  case 0
  let ?m = "encodeStateMap st"
  have "?m \<in> K"
    by (rule key_inv[OF "0.prems"(2)])
  moreover have "K - set (nodes doc) = {}"
    using "0.prems"(3) fin by simp
  ultimately have "node doc ?m" by (auto simp: node_def)
  then show ?case
    using "0.prems"(1) by (simp add: trajectory_break)
next
  case (Suc c)
  let ?m = "encodeStateMap st"
  show ?case
  proof (cases "node doc ?m")
    case True
    then show ?thesis
      using Suc.prems(1) by (simp add: trajectory_break)
  next
    case False
    let ?doc' = "if prev \<noteq> [] then createArc (createNode doc ?m) (prev @ ''->'' @ ?m) prev ?m
                 else createNode doc ?m"
    have n: "nodes ?doc' = nodes doc @ [?m]"
      by (simp add: nodes_createArc nodes_createNode)
    have "?m \<in> K"
      by (rule key_inv[OF Suc.prems(2)])
    with False have "card (K - set (nodes doc @ [?m])) < card (K - set (nodes doc))"
      by (intro card_fresh_key fin) (simp_all add: node_def)
    with Suc.prems(3) have c: "card (K - set (nodes ?doc')) \<le> c"
      unfolding n by simp
    have next_run: "\<exists>res. trajectory net scopes statesList i rf' ?doc' attractors
                        (currStates @ [?m]) ?m (snd (synchronousUpdate net rf' st)) (Suc j) = Some res \<and>
           (case res of Inl e \<Rightarrow> scopes
            | Inr ((rf'', doc'', attractors'), j') \<Rightarrow> R rf'' \<and> j' \<le> j + Suc c)"
      if r': "R rf'" for rf'
      using Suc.IH[OF r' step_inv[OF r' Suc.prems(2)] c, of "currStates @ [?m]" ?m "Suc j"]
      unfolding add_Suc_shift .
    show ?thesis
    proof (cases "scopes")
      case scopes: True
      show ?thesis
      proof (cases "remote_state statesList i (Suc j)")
        case (Inl e)
        with scopes False show ?thesis
          by (simp add: trajectory_continue)
      next
        case (Inr s)
        with scopes False next_run[OF upd_inv[OF Suc.prems(1), of s]]
        show ?thesis
          by (simp add: trajectory_continue)
      qed
    next
      case noscopes: False
      with False next_run[OF Suc.prems(1)] show ?thesis
        by (simp add: trajectory_continue)
    qed
  qed
qed

lemma search_loop_ends:
  assumes step_inv: "\<And>rf st. R rf \<Longrightarrow> S st \<Longrightarrow> S (snd (synchronousUpdate net rf st))"
    and upd_inv: "\<And>rf s. R rf \<Longrightarrow> R (updateNodeRules rf s)"
    and key_inv: "\<And>st. S st \<Longrightarrow> encodeStateMap st \<in> K"
    and fin: "finite K"
  shows "R rf \<Longrightarrow> \<forall>p \<in> set inits. S (snd p) \<Longrightarrow>
         \<exists>res. search_loop net scopes statesList inits (rf, doc, attractors) = Some res \<and>
               (case res of Inl e \<Rightarrow> scopes | Inr vars \<Rightarrow> True)"
proof (induction inits arbitrary: rf doc attractors)
  case Nil
  then show ?case by simp
next
  case (Cons p inits)
  obtain i st where p: "p = (i, st)" by (cases p)
  with Cons.prems have f: "S st" by simp
  from trajectory_ends[of R S net K rf st doc _ scopes statesList i attractors "[]" "[]" 0,
         OF step_inv upd_inv key_inv fin Cons.prems(1) f order_refl]
  obtain res where t: "trajectory net scopes statesList i rf doc attractors [] [] st 0 = Some res"
    and ok: "case res of Inl e \<Rightarrow> scopes
             | Inr ((rf', doc', attractors'), j') \<Rightarrow> R rf' \<and>
                 j' \<le> 0 + card (K - set (nodes doc))"
    by blast
  show ?case
  proof (cases res)
    case (Inl e)
    with t ok p show ?thesis by simp
  next
    case (Inr r)
    obtain rf' doc' attractors' j' where r: "r = ((rf', doc', attractors'), j')"
      by (metis prod.collapse)
    with ok Inr have "R rf'" by simp
    from Cons.IH[OF this, of doc' attractors'] Cons.prems(2) t Inr r p
    show ?thesis by simp
  qed
qed

lemma init_state_full:
  assumes "distinct (keys (state net))"
  shows "full_state net (fst (fold (\<lambda>j (s, d). (put s j (JBool (random d)), Suc d))
                                   (keys (state net)) ([], d)))"
  using put_fold_fresh[OF assms, of "[]" "\<lambda>d. JBool (random d)" d]
  by (auto simp: keys_Nil full_state_def keys_def map_snd_enumerate comp_def split_beta)

lemma collect_fold:
  assumes "\<And>d. P (fst (g d))"
  shows "\<forall>s \<in> set acc. P s \<Longrightarrow>
         (\<forall>s \<in> set (fst (fold (\<lambda>i (xs, d). let (s, d') = g d in (xs @ [s], d')) is (acc, d))). P s) \<and>
         length (fst (fold (\<lambda>i (xs, d). let (s, d') = g d in (xs @ [s], d')) is (acc, d)))
           = length acc + length is"
proof (induction "is" arbitrary: acc d)
  case Nil
  then show ?case by simp
next
  case (Cons i "is")
  have "\<forall>s \<in> set (acc @ [fst (g d)]). P s"
    using Cons.prems assms by simp
  from Cons.IH[OF this, of "snd (g d)"] show ?case
    by (simp add: split_beta Let_def)
qed

lemma init_states_fold:
  assumes "distinct (keys (state net))"
  shows "(\<forall>s \<in> set (getInitStates net random). full_state net s) \<and>
         length (getInitStates net random) = 30"
  unfolding getInitStates_def
  using collect_fold[of "full_state net"
          "\<lambda>d. fold (\<lambda>j (s, d). (put s j (JBool (random d)), Suc d)) (keys (state net)) ([], d)"
          "[]" "[0..<30]" 0, OF init_state_full[OF assms]]
  by simp

lemma getInitStates_full:
  assumes "distinct (keys (state net))"
  shows "\<forall>s \<in> set (getInitStates net random). full_state net s"
  using init_states_fold[OF assms] by simp

lemma length_getInitStates:
  assumes "distinct (keys (state net))"
  shows "length (getInitStates net random) = 30"
  using init_states_fold[OF assms] by simp

lemma boolean_rules_true_rules: "boolean_rules true_network true_rules"
  by (simp add: boolean_rules_def true_rules_def true_network_def keys_def)

text \<open>
  C9 as stated fails. A rule that reads a node without dynamics returns \<open>undefined\<close>,
  whose key text is NaN, so one dynamic node has three keys, not two: from A = true the
  loop of \<open>input_network\<close> visits the keys 1, 0 and NaN and breaks with \<open>j = 3\<close>, in its
  fourth iteration, where \<open>2 ^ 1 + 1 = 3\<close>.
\<close>

theorem input_node_trajectory:
  "trajectory input_network False None 0 input_rules \<lparr>nodes = [], arcs = []\<rparr> [] [] []
       [(''A'', JBool True)] 0
     = Some (Inr ((input_rules,
                   \<lparr>nodes = [''1'', ''0'', ''NaN''],
                    arcs = [(''1->0'', ''1'', ''0''), (''0->NaN'', ''0'', ''NaN''),
                            (''NaN->NaN'', ''NaN'', ''NaN'')]\<rparr>,
                   [[''NaN'']]), 3)) \<and>
   \<not> (3::nat) \<le> 2 ^ length (keys (state input_network))"
proof -
  have s1: "synchronousUpdate input_network input_rules [(''A'', JBool True)]
              = ([''A''], [(''A'', JBool False)])"
    and s2: "synchronousUpdate input_network input_rules [(''A'', JBool False)]
              = ([''A''], [(''A'', JUndefined)])"
    and s3: "synchronousUpdate input_network input_rules [(''A'', JUndefined)]
              = ([], [(''A'', JUndefined)])"
    by (simp_all add: synchronousUpdate_def candidates_def apply_changed_def input_network_def
        input_rules_def keys_def get_def js_not_def js_and_def truthy_def)
  have e: "encodeStateMap [(''A'', JBool True)] = ''1''"
    "encodeStateMap [(''A'', JBool False)] = ''0''"
    "encodeStateMap [(''A'', JUndefined)] = ''NaN''"
    by (simp_all add: encodeStateMap_def keys_def get_def)
  have n: "length (keys (state input_network)) = 1"
    by (simp add: input_network_def keys_def)
  show ?thesis
    by (simp add: trajectory_continue trajectory_break node_def createNode_def createArc_def
        e s1 s2 s3 n)
qed

text \<open>
  C9 (as amended). For all rule functions over \<open>n\<close> dynamic nodes, the loop of every
  state with the keys of \<open>network.state\<close> ends, whatever the document holds, after at
  most \<open>3 ^ n + 1\<close> iterations (\<open>j\<close> is at most \<open>3 ^ n\<close> at the \<open>break\<close>); when the
  rule functions are Boolean and the state is full, after at most \<open>2 ^ n + 1\<close> iterations
  (\<open>j\<close> is at most \<open>2 ^ n\<close>). With \<open>obj.scopes\<close> set the loop can also end by the
  exception of a missing response. \<open>getInitStates\<close> gives 30 full states, and the whole
  search ends.
\<close>

theorem search_terminates:
  "(\<forall>st. keys st = keys (state net) \<longrightarrow>
      (\<exists>res. trajectory net scopes statesList i ruleFunctions doc attractors [] [] st 0 = Some res \<and>
             (case res of Inl e \<Rightarrow> scopes
              | Inr (vars, j) \<Rightarrow> j \<le> 3 ^ length (keys (state net))))) \<and>
   (distinct (keys (state net)) \<and> boolean_rules net ruleFunctions \<longrightarrow>
      (\<forall>st. full_state net st \<longrightarrow>
         (\<exists>res. trajectory net scopes statesList i ruleFunctions doc attractors [] [] st 0
                  = Some res \<and>
                (case res of Inl e \<Rightarrow> scopes
                 | Inr (vars, j) \<Rightarrow> j \<le> 2 ^ length (keys (state net)))))) \<and>
   (distinct (keys (state net)) \<longrightarrow>
      length (getInitStates net random) = 30 \<and>
      (\<forall>st \<in> set (getInitStates net random). full_state net st) \<and>
      (\<exists>res. search net scopes statesList ruleFunctions random = Some res \<and>
             (case res of Inl e \<Rightarrow> scopes | Inr vars \<Rightarrow> True)))"
proof -
  let ?n = "length (keys (state net))"
  let ?K = "encodeStateMap ` keyed_states net"
  have 1: "\<exists>res. trajectory net scopes statesList i ruleFunctions doc attractors [] [] st 0 = Some res \<and>
             (case res of Inl e \<Rightarrow> scopes | Inr (vars, j) \<Rightarrow> j \<le> 3 ^ ?n)"
    if k: "keys st = keys (state net)" for st
  proof -
    have st: "st \<in> keyed_states net"
      using k by (simp add: keyed_states_def)
    have "card (?K - set (nodes doc)) \<le> card ?K"
      by (intro card_mono finite_state_keys) blast
    then have c: "card (?K - set (nodes doc)) \<le> 3 ^ ?n"
      using card_state_keys[of net] by simp
    from trajectory_ends[of "\<lambda>_. True" "\<lambda>st. st \<in> keyed_states net" net ?K ruleFunctions st doc
           "3 ^ ?n" scopes statesList i attractors "[]" "[]" 0,
           OF keyed_states_step _ keyed_states_key finite_state_keys _ st c]
    show ?thesis
      by (auto split: sum.splits)
  qed
  have 2: "\<exists>res. trajectory net scopes statesList i ruleFunctions doc attractors [] [] st 0 = Some res \<and>
             (case res of Inl e \<Rightarrow> scopes | Inr (vars, j) \<Rightarrow> j \<le> 2 ^ ?n)"
    if d: "distinct (keys (state net))" and r: "boolean_rules net ruleFunctions"
      and f: "full_state net st" for st
  proof -
    have c: "card (bool_keys ?n - set (nodes doc)) \<le> 2 ^ ?n"
      using card_mono[OF finite_bool_keys, of "bool_keys ?n - set (nodes doc)" ?n]
      by (simp add: card_bool_keys)
    from trajectory_ends[of "boolean_rules net" "full_state net" net "bool_keys ?n" ruleFunctions
           st doc "2 ^ ?n" scopes statesList i attractors "[]" "[]" 0,
           OF full_state_step[OF d] boolean_rules_updateNodeRules encodeStateMap_bool_keys[OF d]
              finite_bool_keys r f c]
    show ?thesis
      by (auto split: sum.splits)
  qed
  have 3: "\<exists>res. search net scopes statesList ruleFunctions random = Some res \<and>
             (case res of Inl e \<Rightarrow> scopes | Inr vars \<Rightarrow> True)"
    if d: "distinct (keys (state net))"
  proof -
    have "\<forall>p \<in> set (enumerate 0 (getInitStates net random)). snd p \<in> keyed_states net"
      using getInitStates_full[OF d, of random]
      by (auto simp: in_set_enumerate_eq full_state_def keyed_states_def)
    from search_loop_ends[of "\<lambda>_. True" "\<lambda>st. st \<in> keyed_states net" net ?K ruleFunctions
           "enumerate 0 (getInitStates net random)" scopes statesList
           "\<lparr>nodes = [], arcs = []\<rparr>" "[]",
           OF keyed_states_step _ keyed_states_key finite_state_keys _ this]
    show ?thesis
      by (simp add: search_def)
  qed
  from 1 2 3 length_getInitStates getInitStates_full
  show ?thesis by blast
qed

theorem search_terminates_witness:
  "keys [(''A'', JBool False)] = keys (state true_network) \<and>
   distinct (keys (state true_network)) \<and>
   boolean_rules true_network true_rules \<and>
   full_state true_network [(''A'', JBool False)] \<and>
   trajectory true_network False None 0 true_rules \<lparr>nodes = [], arcs = []\<rparr> [] [] []
       [(''A'', JBool False)] 0
     = Some (Inr ((true_rules,
                   \<lparr>nodes = [''0'', ''1''],
                    arcs = [(''0->1'', ''0'', ''1''), (''1->1'', ''1'', ''1'')]\<rparr>,
                   [[''1'']]), 2)) \<and>
   (2::nat) \<le> 2 ^ length (keys (state true_network)) \<and>
   length (getInitStates true_network (\<lambda>d. False)) = 30 \<and>
   (\<exists>res. search true_network False None true_rules (\<lambda>d. False) = Some (Inr res))"
proof -
  have d: "distinct (keys (state true_network))"
    by (simp add: true_network_def keys_def)
  have f: "full_state true_network [(''A'', JBool False)]"
    by (simp add: full_state_def true_network_def keys_def)
  have t: "trajectory true_network False None 0 true_rules \<lparr>nodes = [], arcs = []\<rparr> [] [] []
       [(''A'', JBool False)] 0
     = Some (Inr ((true_rules,
                   \<lparr>nodes = [''0'', ''1''],
                    arcs = [(''0->1'', ''0'', ''1''), (''1->1'', ''1'', ''1'')]\<rparr>,
                   [[''1'']]), 2))"
    by (simp add: trajectory_continue trajectory_break node_def createNode_def createArc_def
        true_encode true_step)
  from search_terminates[of true_network False None 0 true_rules
          "\<lparr>nodes = [], arcs = []\<rparr>" "[]" "\<lambda>d. False"]
  have l: "length (getInitStates true_network (\<lambda>d. False)) = 30"
    and "\<exists>res. search true_network False None true_rules (\<lambda>d. False) = Some res \<and>
             (case res of Inl e \<Rightarrow> False | Inr vars \<Rightarrow> True)"
    using d by blast+
  then obtain res where "search true_network False None true_rules (\<lambda>d. False) = Some res"
    and "case res of Inl e \<Rightarrow> False | Inr vars \<Rightarrow> True"
    by blast
  then have s: "\<exists>res. search true_network False None true_rules (\<lambda>d. False) = Some (Inr res)"
    by (cases res) auto
  from d f t s l boolean_rules_true_rules show ?thesis
    by (simp add: true_network_def keys_def)
qed

section \<open>Fixed points\<close>

lemma orbit_nonempty: "orbit net rf st k \<noteq> []"
  by (cases k) simp_all

lemma fixed_point_run:
  assumes "distinct (map encodeStateMap (orbit net rf st k))"
    and "set (map encodeStateMap (orbit net rf st k)) \<inter> set (nodes doc) = {}"
    and "set currStates \<subseteq> set (nodes doc)"
    and "step net rf (last (orbit net rf st k)) = last (orbit net rf st k)"
  shows "\<exists>doc'. trajectory net False statesList i rf doc attractors currStates prev st j =
           Some (Inr ((rf, doc', attractors @ [[encodeStateMap (last (orbit net rf st k))]]),
                      Suc (j + k))) \<and>
         nodes doc' = nodes doc @ map encodeStateMap (orbit net rf st k)"
  using assms
proof (induction k arbitrary: st doc currStates prev j)
  case 0
  let ?m = "encodeStateMap st"
  let ?doc' = "if prev \<noteq> [] then createArc (createNode doc ?m) (prev @ ''->'' @ ?m) prev ?m
               else createNode doc ?m"
  let ?doc'' = "if ?m \<noteq> [] then createArc ?doc' (?m @ ''->'' @ ?m) ?m ?m else ?doc'"
  from 0 have new: "\<not> node doc ?m" and fp: "step net rf st = st"
    and fresh: "?m \<notin> set currStates"
    by (auto simp: node_def)
  have n: "nodes ?doc' = nodes doc @ [?m]"
    by (simp add: nodes_createArc nodes_createNode)
  then have known: "node ?doc' ?m" by (simp add: node_def)
  have d: "dropWhile (\<lambda>k. k \<noteq> ?m) (currStates @ [?m]) = [?m]"
    using fresh by (simp add: dropWhile_append)
  have "trajectory net False statesList i rf doc attractors currStates prev st j =
        trajectory net False statesList i rf ?doc' attractors (currStates @ [?m]) ?m st (Suc j)"
    using trajectory_continue[OF new, of net False statesList i rf attractors currStates prev j] fp
    by (simp add: step_def)
  also have "\<dots> = Some (Inr ((rf, ?doc'', attractors @ [[?m]]), Suc j))"
    using trajectory_break[OF known, of net False statesList i rf attractors "currStates @ [?m]" ?m "Suc j"] d
    by simp
  finally show ?case
    by (intro exI[of _ ?doc'']) (simp add: nodes_createArc n)
next
  case (Suc k)
  let ?m = "encodeStateMap st"
  let ?st1 = "step net rf st"
  let ?doc' = "if prev \<noteq> [] then createArc (createNode doc ?m) (prev @ ''->'' @ ?m) prev ?m
               else createNode doc ?m"
  have n: "nodes ?doc' = nodes doc @ [?m]"
    by (simp add: nodes_createArc nodes_createNode)
  from Suc.prems have new: "\<not> node doc ?m"
    by (auto simp: node_def)
  have l: "last (orbit net rf st (Suc k)) = last (orbit net rf ?st1 k)"
    by (simp add: orbit_nonempty)
  have 1: "distinct (map encodeStateMap (orbit net rf ?st1 k))"
    using Suc.prems(1) by simp
  have 2: "set (map encodeStateMap (orbit net rf ?st1 k)) \<inter> set (nodes ?doc') = {}"
    using Suc.prems(1,2) unfolding n by auto
  have 3: "set (currStates @ [?m]) \<subseteq> set (nodes ?doc')"
    using Suc.prems(3) unfolding n by auto
  have 4: "step net rf (last (orbit net rf ?st1 k)) = last (orbit net rf ?st1 k)"
    using Suc.prems(4) unfolding l .
  from Suc.IH[OF 1 2 3 4, of ?m "Suc j"]
  obtain doc'' where r: "trajectory net False statesList i rf ?doc' attractors (currStates @ [?m]) ?m ?st1 (Suc j) =
       Some (Inr ((rf, doc'', attractors @ [[encodeStateMap (last (orbit net rf ?st1 k))]]),
                  Suc (Suc j + k)))"
    and n'': "nodes doc'' = nodes ?doc' @ map encodeStateMap (orbit net rf ?st1 k)"
    by blast
  have "trajectory net False statesList i rf doc attractors currStates prev st j =
        trajectory net False statesList i rf ?doc' attractors (currStates @ [?m]) ?m ?st1 (Suc j)"
    using trajectory_continue[OF new, of net False statesList i rf attractors currStates prev j]
    by (simp add: step_def)
  with r n'' show ?case
    unfolding l n by (intro exI[of _ doc'']) simp
qed

lemma true_full_state:
  assumes "full_state true_network st"
  shows "\<exists>b. st = [(''A'', JBool b)]"
proof -
  from assms have k: "map fst st = [''A'']" and b: "\<forall>p \<in> set st. snd p \<noteq> JUndefined"
    by (simp_all add: full_state_def true_network_def keys_def)
  from k obtain v where st: "st = [(''A'', v)]"
    by (cases st) auto
  with b have "v \<noteq> JUndefined" by simp
  then obtain b where "v = JBool b" by (cases v) auto
  with st show ?thesis by simp
qed

lemma true_trajectory_first:
  "\<exists>doc' j. trajectory true_network False statesList i true_rules \<lparr>nodes = [], arcs = []\<rparr> [] [] []
               [(''A'', JBool b)] 0
             = Some (Inr ((true_rules, doc', [[''1'']]), j)) \<and> ''1'' \<in> set (nodes doc')"
proof (cases b)
  case True
  from fixed_point_run[of true_network true_rules "[(''A'', JBool True)]" 0
         "\<lparr>nodes = [], arcs = []\<rparr>" "[]" statesList i "[]" "[]" 0]
  show ?thesis using True
    by (auto simp: step_def true_step true_encode)
next
  case False
  from fixed_point_run[of true_network true_rules "[(''A'', JBool False)]" 1
         "\<lparr>nodes = [], arcs = []\<rparr>" "[]" statesList i "[]" "[]" 0]
  show ?thesis using False
    by (auto simp: step_def true_step true_encode)
qed

lemma true_trajectory_later:
  assumes "''1'' \<in> set (nodes doc)"
  shows "\<exists>doc' j. trajectory true_network False statesList i true_rules doc attractors [] []
               [(''A'', JBool b)] 0
             = Some (Inr ((true_rules, doc', attractors), j)) \<and> ''1'' \<in> set (nodes doc')"
proof (cases "node doc (encodeStateMap [(''A'', JBool b)])")
  case True
  then show ?thesis
    using assms by (simp add: trajectory_break)
next
  case False
  with assms have b: "\<not> b" by (auto simp: node_def true_encode)
  have 1: "node (createNode doc ''0'') (encodeStateMap [(''A'', JBool True)])"
    using assms by (simp add: node_def true_encode nodes_createNode)
  show ?thesis
    using False b assms
    by (simp add: trajectory_continue true_step trajectory_break[OF 1] true_encode
        nodes_createArc nodes_createNode)
qed

lemma true_search_loop:
  assumes "''1'' \<in> set (nodes doc)" and "\<forall>p \<in> set inits. full_state true_network (snd p)"
  shows "\<exists>doc'. search_loop true_network False statesList inits (true_rules, doc, attractors)
               = Some (Inr (true_rules, doc', attractors))"
  using assms
proof (induction inits arbitrary: doc)
  case Nil
  then show ?case by simp
next
  case (Cons p inits)
  obtain i st where p: "p = (i, st)" by (cases p)
  with Cons.prems true_full_state[of st] obtain b where st: "st = [(''A'', JBool b)]"
    by auto
  from true_trajectory_later[OF Cons.prems(1), of statesList i attractors b]
  obtain doc' j where t: "trajectory true_network False statesList i true_rules doc attractors [] []
               [(''A'', JBool b)] 0 = Some (Inr ((true_rules, doc', attractors), j))"
    and n: "''1'' \<in> set (nodes doc')"
    by blast
  from Cons.IH[OF n] Cons.prems(2) t p st show ?case by simp
qed

lemma true_search:
  "\<exists>doc. search true_network False statesList true_rules random
           = Some (Inr (true_rules, doc, [[''1'']]))"
proof -
  have d: "distinct (keys (state true_network))"
    by (simp add: true_network_def keys_def)
  let ?inits = "enumerate 0 (getInitStates true_network random)"
  have full: "\<forall>p \<in> set ?inits. full_state true_network (snd p)"
    using getInitStates_full[OF d, of random] by (auto simp: in_set_enumerate_eq)
  have "length ?inits = 30"
    by (simp add: length_getInitStates[OF d])
  then obtain p rest where inits: "?inits = p # rest"
    by (cases ?inits) simp_all
  obtain i st where p: "p = (i, st)" by (cases p)
  with full inits true_full_state[of st] obtain b where st: "st = [(''A'', JBool b)]"
    by auto
  from true_trajectory_first[of statesList i b]
  obtain doc' j where t: "trajectory true_network False statesList i true_rules
               \<lparr>nodes = [], arcs = []\<rparr> [] [] [] [(''A'', JBool b)] 0
             = Some (Inr ((true_rules, doc', [[''1'']]), j))" and n: "''1'' \<in> set (nodes doc')"
    by blast
  from full inits have "\<forall>p \<in> set rest. full_state true_network (snd p)" by simp
  from true_search_loop[OF n this, of statesList "[[''1'']]"] t
  show ?thesis
    unfolding search_def inits p st by simp
qed

text \<open>
  C4 as stated fails when \<open>obj.scopes\<close> is set: \<open>updateNodeRules\<close> then replaces the rule
  functions at every iteration by what the server sent. On the one-node network with the
  rule \<open>true\<close>, the state A = true has a key the document does not hold and is a fixed
  point of the step; with a response of zeros the loop records the attractor 0, the key
  of A = false, and with no response it throws.
\<close>

theorem remote_rules_trajectory:
  "distinct (map encodeStateMap (orbit true_network true_rules [(''A'', JBool True)] 0)) \<and>
   set (map encodeStateMap (orbit true_network true_rules [(''A'', JBool True)] 0))
     \<inter> set (nodes \<lparr>nodes = [], arcs = []\<rparr>) = {} \<and>
   step true_network true_rules (last (orbit true_network true_rules [(''A'', JBool True)] 0))
     = last (orbit true_network true_rules [(''A'', JBool True)] 0) \<and>
   encodeStateMap (last (orbit true_network true_rules [(''A'', JBool True)] 0)) = ''1'' \<and>
   map_option (map_sum id (\<lambda>(vars, j). snd (snd vars)))
     (trajectory true_network True
        (Some [[[(''A'', False)], [(''A'', False)], [(''A'', False)]]]) 0 true_rules
        \<lparr>nodes = [], arcs = []\<rparr> [] [] [] [(''A'', JBool True)] 0)
     = Some (Inr [[''0'']]) \<and>
   trajectory true_network True None 0 true_rules
        \<lparr>nodes = [], arcs = []\<rparr> [] [] [] [(''A'', JBool True)] 0
     = Some (Inl TypeError)"
proof -
  have u: "updateNodeRules rf [(''A'', False)] = rf(''A'' := (\<lambda>_. JBool False))" for rf
    by (simp add: updateNodeRules_def keys_def)
  have s: "synchronousUpdate true_network (rf(''A'' := (\<lambda>_. JBool False))) [(''A'', JBool b)]
             = (if b then [''A''] else [], [(''A'', JBool False)])" for rf b
    by (cases b)
       (simp_all add: synchronousUpdate_def candidates_def apply_changed_def true_network_def
          keys_def get_def)
  have r: "remote_state (Some [[[(''A'', False)], [(''A'', False)], [(''A'', False)]]]) 0 (Suc 0)
             = Inr [(''A'', False)]"
    "remote_state (Some [[[(''A'', False)], [(''A'', False)], [(''A'', False)]]]) 0 (Suc (Suc 0))
             = Inr [(''A'', False)]"
    "remote_state None 0 (Suc 0) = Inl TypeError"
    by (simp_all add: remote_state_def)
  show ?thesis
    by (simp add: step_def true_step true_encode trajectory_continue trajectory_break node_def
        createNode_def createArc_def r u s)
qed

text \<open>
  C4 (as amended). With \<open>obj.scopes\<close> not set: if the states a trajectory visits from
  \<open>st\<close> in \<open>k\<close> steps have keys that differ from each other and from the nodes of the
  document, and the last of them is a fixed point of the step, the loop records one more
  attractor: the single key of that fixed point. On the one-node network with the rule
  \<open>true\<close>, the search records, for every outcome of the random draws, the single
  attractor 1, the key of the state A = true.
\<close>

theorem fixed_point_attractor:
  assumes "distinct (map encodeStateMap (orbit net ruleFunctions st k))"
    and "set (map encodeStateMap (orbit net ruleFunctions st k)) \<inter> set (nodes doc) = {}"
    and "step net ruleFunctions (last (orbit net ruleFunctions st k))
           = last (orbit net ruleFunctions st k)"
  shows "(\<exists>doc'. trajectory net False statesList i ruleFunctions doc attractors [] [] st 0 =
            Some (Inr ((ruleFunctions, doc',
                        attractors @ [[encodeStateMap (last (orbit net ruleFunctions st k))]]),
                       Suc k)) \<and>
            nodes doc' = nodes doc @ map encodeStateMap (orbit net ruleFunctions st k)) \<and>
         (\<exists>doc'. search true_network False statesList true_rules random
                   = Some (Inr (true_rules, doc', [[''1'']]))) \<and>
         decodeStateMap true_network ''1'' = [(''A'', JBool True)]"
proof -
  have "decodeStateMap true_network ''1'' = [(''A'', JBool True)]"
    by (simp add: decodeStateMap_def true_network_def keys_def char_at_def parseInt10_def
        Boolean_num_def)
  with fixed_point_run[OF assms(1,2) _ assms(3), of "[]" statesList i attractors "[]" 0]
    true_search[of statesList random]
  show ?thesis by simp
qed

theorem fixed_point_attractor_witness:
  "distinct (map encodeStateMap (orbit true_network true_rules [(''A'', JBool False)] 1)) \<and>
   orbit true_network true_rules [(''A'', JBool False)] 1
     = [[(''A'', JBool False)], [(''A'', JBool True)]] \<and>
   step true_network true_rules [(''A'', JBool True)] = [(''A'', JBool True)] \<and>
   (\<exists>doc'. trajectory true_network False None 0 true_rules \<lparr>nodes = [], arcs = []\<rparr> [] [] []
             [(''A'', JBool False)] 0
           = Some (Inr ((true_rules, doc', [[''1'']]), 2)) \<and>
           nodes doc' = [''0'', ''1''])"
  using fixed_point_attractor[of true_network true_rules "[(''A'', JBool False)]" 1
          "\<lparr>nodes = [], arcs = []\<rparr>" None 0 "[]" "\<lambda>d. False"]
  by (simp add: step_def true_step true_encode numeral_2_eq_2)

end
